theory Spec2Isabelle
  imports Complex_Main
begin

section \<open>Data model (types of the frontend)\<close>

text \<open>
  The job orchestration of the repository lives in its React frontend: the
  \<^verbatim>\<open>ProcessingPanel\<close> creates job objects and schedules two timers that mutate them,
  \<^verbatim>\<open>HomePage\<close> keeps the list \<^verbatim>\<open>activeJobs\<close>, and \<^verbatim>\<open>JobTracker\<close> renders that list and
  deletes from it. Field names that would clash with HOL constants or with each other
  carry a prefix (\<^verbatim>\<open>id\<close> becomes \<open>job_id\<close>, \<open>layer_id\<close>, \<open>file_id\<close>; \<^verbatim>\<open>type\<close> becomes
  \<open>job_type\<close>, \<open>layer_type\<close>, \<open>file_type\<close>), and the string literals of the union types are
  constructors with a capital letter.
\<close>

datatype file_kind = Raster | Vector

text \<open>\<^verbatim>\<open>LayerConfig\<close>: the optional \<^verbatim>\<open>metadata\<close> and the untyped \<^verbatim>\<open>data\<close> are opaque
  here, so they are type parameters; \<^verbatim>\<open>opacity\<close> is a JavaScript number.\<close>

record ('m, 'd) LayerConfig =
  layer_id :: string
  layer_name :: string
  layer_type :: file_kind
  visible :: bool
  opacity :: real
  filePath :: string
  metadata :: "'m option"
  data :: "'d option"

section \<open>MapViewer: layer visibility\<close>

text \<open>
  \<^verbatim>\<open>setLayers(prev => prev.map(layer =>
       layer.id === layerId ? { ...layer, visible: !layer.visible } : layer))\<close>
\<close>

definition toggleLayerVisibility ::
  "string \<Rightarrow> ('m, 'd) LayerConfig list \<Rightarrow> ('m, 'd) LayerConfig list" where
  "toggleLayerVisibility layerId prev =
     map (\<lambda>layer. if layer_id layer = layerId
                   then layer\<lparr>visible := \<not> visible layer\<rparr>
                   else layer) prev"

section \<open>FileManager: human-readable file sizes\<close>

text \<open>
  \<^verbatim>\<open>const formatFileSize = (bytes: number) => {
    if (bytes === 0) return '0 Bytes'
    const k = 1024
    const sizes = ['Bytes', 'KB', 'MB', 'GB']
    const i = Math.floor(Math.log(bytes) / Math.log(k))
    return parseFloat((bytes / Math.pow(k, i)).toFixed(2)) + ' ' + sizes[i]
  }\<close>
  The argument is a file size, a natural number of bytes. \<^verbatim>\<open>Math.log\<close> is taken as the
  real logarithm. Reading an array outside its bounds gives \<^verbatim>\<open>undefined\<close> in
  JavaScript, which the string concatenation prints as the word \<^verbatim>\<open>undefined\<close>.
\<close>

definition sizes :: "string list" where
  "sizes = [''Bytes'', ''KB'', ''MB'', ''GB'']"

definition unitIndex :: "nat \<Rightarrow> nat \<Rightarrow> int" where
  "unitIndex k bytes = \<lfloor>ln (real bytes) / ln (real k)\<rfloor>"

definition sizesAt :: "int \<Rightarrow> string" where
  "sizesAt i = (if 0 \<le> i \<and> i < int (length sizes) then sizes ! nat i else ''undefined'')"

text \<open>Decimal digits of a natural number (\<^verbatim>\<open>Number.prototype.toString\<close> on a
  non-negative integer below \<open>10\<^sup>2\<^sup>1\<close>).\<close>

definition digit :: "nat \<Rightarrow> char" where
  "digit d = ''0123456789'' ! d"

fun toString :: "nat \<Rightarrow> string" where
  "toString n = (if n < 10 then [digit n] else toString (n div 10) @ [digit (n mod 10)])"

declare toString.simps [simp del]

text \<open>
  \<^verbatim>\<open>(x).toFixed(2)\<close> picks the integer \<open>n\<close> with \<open>n / 100\<close> nearest to \<open>x\<close>, the larger one
  on a tie; \<^verbatim>\<open>parseFloat\<close> followed by the conversion back to a string drops the trailing
  zeros of the fraction. Here \<open>x = bytes / k ^ i\<close>, so \<open>n\<close> is computed on integers.
\<close>

definition toFixed2 :: "nat \<Rightarrow> nat \<Rightarrow> nat" where
  "toFixed2 bytes d = (200 * bytes + d) div (2 * d)"

definition showHundredths :: "nat \<Rightarrow> string" where
  "showHundredths n =
     (let w = n div 100; f = n mod 100 in
      if f = 0 then toString w
      else if f mod 10 = 0 then toString w @ ''.'' @ [digit (f div 10)]
      else toString w @ ''.'' @ [digit (f div 10), digit (f mod 10)])"

definition formatFileSize :: "nat \<Rightarrow> string" where
  "formatFileSize bytes =
     (if bytes = 0 then ''0 Bytes''
      else let k = 1024; i = unitIndex k bytes in
        showHundredths (toFixed2 bytes (k ^ nat i)) @ '' '' @ sizesAt i)"

section \<open>Jobs, files and operations\<close>

text \<open>
  \<^verbatim>\<open>ProcessingJob\<close>: \<^verbatim>\<open>type: 'clip' | 'reproject' | 'resample' | 'mosaic'\<close> and
  \<^verbatim>\<open>status: 'pending' | 'processing' | 'completed' | 'failed'\<close>. Timestamps are the
  milliseconds of the clock (\<^verbatim>\<open>toISOString\<close> prints them in an order-preserving way);
  \<^verbatim>\<open>parameters\<close> is a dictionary, always created empty.
\<close>

datatype job_kind = Clip | Reproject | Resample | Mosaic

datatype job_status = Pending | Processing | Completed | Failed

record ProcessingJob =
  job_id :: string
  job_type :: job_kind
  status :: job_status
  progress :: nat
  input_files :: "string list"
  output_file :: "string option"
  parameters :: "(string \<times> string) list"
  created_at :: nat
  updated_at :: "nat option"
  error :: "string option"

text \<open>\<^verbatim>\<open>UploadedFile\<close> (its optional \<^verbatim>\<open>info\<close> is never filled in and is left out).\<close>

record UploadedFile =
  file_id :: string
  file_name :: string
  file_size :: nat
  file_type :: file_kind
  path :: string
  uploadedAt :: nat

text \<open>
  The table \<^verbatim>\<open>operations\<close> of the processing panel. A requirement that the source
  leaves out (\<^verbatim>\<open>requirements: { raster: 1 }\<close> has no \<^verbatim>\<open>vector\<close>) is \<open>None\<close>. Name,
  description and icon are presentation only.
\<close>

record requirements =
  req_raster :: "nat option"
  req_vector :: "nat option"

record operation =
  op_id :: job_kind
  category :: string
  requirements :: requirements

definition operations :: "operation list" where
  "operations =
     [\<lparr>op_id = Clip, category = ''geometric'',
        requirements = \<lparr>req_raster = Some 1, req_vector = Some 1\<rparr>\<rparr>,
      \<lparr>op_id = Reproject, category = ''geometric'',
        requirements = \<lparr>req_raster = Some 1, req_vector = None\<rparr>\<rparr>,
      \<lparr>op_id = Resample, category = ''geometric'',
        requirements = \<lparr>req_raster = Some 1, req_vector = None\<rparr>\<rparr>,
      \<lparr>op_id = Mosaic, category = ''analysis'',
        requirements = \<lparr>req_raster = Some 2, req_vector = None\<rparr>\<rparr>]"

section \<open>ProcessingPanel\<close>

text \<open>
  \<^verbatim>\<open>const rasterFiles = files.filter(f => f.type === 'raster')
  const vectorFiles = files.filter(f => f.type === 'vector')
  const canExecuteOperation = (operation: any) => {
    const reqs = operation.requirements
    if (reqs.raster && rasterFiles.length < reqs.raster) return false
    if (reqs.vector && vectorFiles.length < reqs.vector) return false
    return true
  }\<close>
  \<open>lacks req n\<close> is the test \<^verbatim>\<open>req && n < req\<close>: an absent requirement and the number 0
  are both falsy.
\<close>

definition rasterFiles :: "UploadedFile list \<Rightarrow> UploadedFile list" where
  "rasterFiles files = filter (\<lambda>f. file_type f = Raster) files"

definition vectorFiles :: "UploadedFile list \<Rightarrow> UploadedFile list" where
  "vectorFiles files = filter (\<lambda>f. file_type f = Vector) files"

fun lacks :: "nat option \<Rightarrow> nat \<Rightarrow> bool" where
  "lacks None n = False"
| "lacks (Some req) n = (req \<noteq> 0 \<and> n < req)"

definition canExecuteOperation :: "UploadedFile list \<Rightarrow> operation \<Rightarrow> bool" where
  "canExecuteOperation files operation =
     (let reqs = requirements operation in
      if lacks (req_raster reqs) (length (rasterFiles files)) then False
      else if lacks (req_vector reqs) (length (vectorFiles files)) then False
      else True)"

text \<open>
  The panel's own state (\<^verbatim>\<open>useState\<close>) and its three controls:
  the operation button, \<^verbatim>\<open>onClick={() => canExecute && setSelectedOperation(operation.id)}\<close>;
  a file checkbox, which appends the file id when checked and filters it out when
  unchecked; and the execute button with
  \<^verbatim>\<open>disabled={!selectedOperation || selectedFiles.length === 0}\<close>.
\<close>

record panel =
  selectedOperation :: "job_kind option"
  selectedFiles :: "string list"

definition panel0 :: panel where
  "panel0 = \<lparr>selectedOperation = None, selectedFiles = []\<rparr>"

definition clickOperation :: "UploadedFile list \<Rightarrow> operation \<Rightarrow> panel \<Rightarrow> panel" where
  "clickOperation files operation p =
     (if canExecuteOperation files operation
      then p\<lparr>selectedOperation := Some (op_id operation)\<rparr> else p)"

definition changeFileCheckbox :: "string \<Rightarrow> bool \<Rightarrow> panel \<Rightarrow> panel" where
  "changeFileCheckbox fileId checked p =
     (if checked then p\<lparr>selectedFiles := selectedFiles p @ [fileId]\<rparr>
      else p\<lparr>selectedFiles := filter (\<lambda>i. i \<noteq> fileId) (selectedFiles p)\<rparr>)"

definition executeDisabled :: "panel \<Rightarrow> bool" where
  "executeDisabled p = (selectedOperation p = None \<or> selectedFiles p = [])"

section \<open>Application state: job objects, the job list and the timers\<close>

text \<open>
  A job is a JavaScript object: the list \<^verbatim>\<open>activeJobs\<close> and the two timer callbacks of
  \<^verbatim>\<open>handleExecute\<close> share it by reference. The store \<open>heap\<close> holds the objects, addressed
  by their index (the order of allocation); \<open>activeJobs\<close> holds references; \<open>timers\<close>
  holds the pending \<^verbatim>\<open>setTimeout\<close> entries in the order of registration, each with the
  time it is due, the job it closes over and its callback.
\<close>

datatype callback = SetProcessing | SetCompleted

type_synonym timer = "nat \<times> nat \<times> callback"

record app =
  heap :: "ProcessingJob list"
  activeJobs :: "nat list"
  timers :: "timer list"

definition init :: app where
  "init = \<lparr>heap = [], activeJobs = [], timers = []\<rparr>"

text \<open>\<^verbatim>\<open>HomePage.handleJobCreate\<close>: \<^verbatim>\<open>setActiveJobs(prev => [...prev, job])\<close>.\<close>

definition handleJobCreate :: "nat \<Rightarrow> app \<Rightarrow> app" where
  "handleJobCreate job s = s\<lparr>activeJobs := activeJobs s @ [job]\<rparr>"

text \<open>
  \<^verbatim>\<open>const handleExecute = () => {
    if (!selectedOperation) return
    const job: ProcessingJob = {
      id: Date.now().toString(), type: selectedOperation as any, status: 'pending',
      progress: 0, input_files: selectedFiles, parameters: {},
      created_at: new Date().toISOString(),
    }
    onJobCreate(job)
    setTimeout(() => { job.status = 'processing'; job.progress = 50 }, 1000)
    setTimeout(() => { job.status = 'completed'; job.progress = 100
                       job.output_file = `result_${job.id}.tif` }, 5000)
  }\<close>
  \<open>now\<close> is the clock at the call, in milliseconds.
\<close>

definition newJob :: "nat \<Rightarrow> job_kind \<Rightarrow> string list \<Rightarrow> ProcessingJob" where
  "newJob now selectedOp selFiles =
     \<lparr>job_id = toString now, job_type = selectedOp, status = Pending, progress = 0,
      input_files = selFiles, output_file = None, parameters = [],
      created_at = now, updated_at = None, error = None\<rparr>"

definition handleExecute :: "nat \<Rightarrow> job_kind option \<Rightarrow> string list \<Rightarrow> app \<Rightarrow> app" where
  "handleExecute now selectedOp selFiles s =
     (case selectedOp of
        None \<Rightarrow> s
      | Some opn \<Rightarrow>
          let job = length (heap s);
              s1 = s\<lparr>heap := heap s @ [newJob now opn selFiles]\<rparr>;
              s2 = handleJobCreate job s1
          in s2\<lparr>timers := timers s2 @
                  [(now + 1000, job, SetProcessing), (now + 5000, job, SetCompleted)]\<rparr>)"

text \<open>The execute button calls \<open>handleExecute\<close> unless it is disabled.\<close>

definition clickExecute :: "nat \<Rightarrow> panel \<Rightarrow> app \<Rightarrow> app" where
  "clickExecute now p s =
     (if executeDisabled p then s
      else handleExecute now (selectedOperation p) (selectedFiles p) s)"

text \<open>The bodies of the two timer callbacks.\<close>

fun runCallback :: "callback \<Rightarrow> ProcessingJob \<Rightarrow> ProcessingJob" where
  "runCallback SetProcessing job = job\<lparr>status := Processing, progress := 50\<rparr>"
| "runCallback SetCompleted job =
     job\<lparr>status := Completed, progress := 100,
         output_file := Some (''result_'' @ job_id job @ ''.tif'')\<rparr>"

text \<open>
  The event loop runs the pending timer that is due first; among timers due at the same
  time, the one registered first.
\<close>

fun nextTimer :: "timer list \<Rightarrow> timer option" where
  "nextTimer [] = None"
| "nextTimer (t # ts) =
     (case nextTimer ts of
        None \<Rightarrow> Some t
      | Some u \<Rightarrow> if fst t \<le> fst u then Some t else Some u)"

definition fireTimer :: "app \<Rightarrow> app" where
  "fireTimer s =
     (case nextTimer (timers s) of
        None \<Rightarrow> s
      | Some (due, job, cb) \<Rightarrow>
          s\<lparr>timers := remove1 (due, job, cb) (timers s),
            heap := (heap s)[job := runCallback cb (heap s ! job)]\<rparr>)"

section \<open>JobTracker\<close>

text \<open>
  \<^verbatim>\<open>const handleDelete = (jobId: string) => {
    onJobsChange(jobs.filter(j => j.id !== jobId))
  }\<close>
  where \<^verbatim>\<open>onJobsChange\<close> is \<^verbatim>\<open>setActiveJobs\<close>.
\<close>

definition handleDelete :: "string \<Rightarrow> app \<Rightarrow> app" where
  "handleDelete jobId s =
     s\<lparr>activeJobs := filter (\<lambda>j. job_id (heap s ! j) \<noteq> jobId) (activeJobs s)\<rparr>"

text \<open>
  What the tracker renders: the jobs in the order of the list (\<^verbatim>\<open>jobs.map\<close>), the
  counter \<^verbatim>\<open>processingJobs = jobs.filter(j => j.status === 'processing')\<close>, and the
  delete button of a job, under the guard \<^verbatim>\<open>job.status !== 'processing'\<close>.
\<close>

definition jobs :: "app \<Rightarrow> ProcessingJob list" where
  "jobs s = map (\<lambda>j. heap s ! j) (activeJobs s)"

definition processingJobs :: "app \<Rightarrow> ProcessingJob list" where
  "processingJobs s = filter (\<lambda>j. status j = Processing) (jobs s)"

definition deleteButtonRendered :: "ProcessingJob \<Rightarrow> bool" where
  "deleteButtonRendered job = (status job \<noteq> Processing)"

text \<open>
  The guard is evaluated when the tracker renders, not when the button is clicked. The
  tracker renders when the job list changes (\<^verbatim>\<open>setActiveJobs\<close>) or when its tab is shown;
  the timers of \<open>handleExecute\<close> write \<^verbatim>\<open>job.status\<close> on the object without any state
  setter, so they cause no rendering. \<open>deleteButtons s\<close> are the jobs that get a delete
  button from a rendering in state \<open>s\<close>; the buttons stay on the screen until the next
  rendering. \<open>clickDelete screen j s\<close> is a click, in state \<open>s\<close>, on the button of job \<open>j\<close> of a
  screen rendered earlier: \<^verbatim>\<open>onClick={() => handleDelete(job.id)}\<close>.
\<close>

definition deleteButtons :: "app \<Rightarrow> nat list" where
  "deleteButtons s = filter (\<lambda>j. deleteButtonRendered (heap s ! j)) (activeJobs s)"

definition clickDelete :: "nat list \<Rightarrow> nat \<Rightarrow> app \<Rightarrow> app" where
  "clickDelete screen j s =
     (if j \<in> set screen then handleDelete (job_id (heap s ! j)) s else s)"

section \<open>Runs\<close>

text \<open>
  The operations that change jobs or the job list: a call of \<open>handleExecute\<close> (with the
  clock and the panel's selection at that moment), a call of \<open>handleDelete\<close>, and the
  firing of the next timer.
\<close>

datatype event = Execute nat "job_kind option" "string list" | Delete string | TimerFires

fun step :: "event \<Rightarrow> app \<Rightarrow> app" where
  "step (Execute now selectedOp selFiles) s = handleExecute now selectedOp selFiles s"
| "step (Delete jobId) s = handleDelete jobId s"
| "step TimerFires s = fireTimer s"

fun run :: "event list \<Rightarrow> app \<Rightarrow> app" where
  "run [] s = s"
| "run (e # es) s = run es (step e s)"

text \<open>
  The state machine of the specification on the statuses the code has: the legal
  transitions, and the terminal states.
\<close>

fun transition :: "job_status \<Rightarrow> job_status \<Rightarrow> bool" where
  "transition Pending Processing = True"
| "transition Processing Completed = True"
| "transition Processing Failed = True"
| "transition _ _ = False"

definition terminal :: "job_status \<Rightarrow> bool" where
  "terminal st = (st = Completed \<or> st = Failed)"

section \<open>The invariant of the job store\<close>

text \<open>
  Every job object is in one of three phases, and its pending timers say which: a pending
  job still has both of its timers, the one that sets \<open>processing\<close> due before the one that
  sets \<open>completed\<close>; a processing job has only the second one left; a completed job has
  none. No job is ever \<open>failed\<close> and no \<open>error\<close> is ever set. Timers and the job list
  refer to allocated objects only.
\<close>

definition timersOf :: "nat \<Rightarrow> app \<Rightarrow> timer list" where
  "timersOf j s = filter (\<lambda>t. fst (snd t) = j) (timers s)"

definition phaseOK :: "app \<Rightarrow> nat \<Rightarrow> bool" where
  "phaseOK s j =
     (let job = heap s ! j; ts = timersOf j s in
      error job = None \<and>
      (case status job of
         Pending \<Rightarrow> progress job = 0 \<and> output_file job = None \<and>
           map (snd \<circ> snd) ts = [SetProcessing, SetCompleted] \<and> fst (ts ! 0) < fst (ts ! 1)
       | Processing \<Rightarrow> progress job = 50 \<and> output_file job = None \<and>
           map (snd \<circ> snd) ts = [SetCompleted]
       | Completed \<Rightarrow> progress job = 100 \<and>
           output_file job = Some (''result_'' @ job_id job @ ''.tif'') \<and> ts = []
       | Failed \<Rightarrow> False))"

definition job_inv :: "app \<Rightarrow> bool" where
  "job_inv s = ((\<forall>j < length (heap s). phaseOK s j)
          \<and> (\<forall>t \<in> set (timers s). fst (snd t) < length (heap s))
          \<and> (\<forall>j \<in> set (activeJobs s). j < length (heap s)))"

section \<open>Submissions of a run, and example inputs\<close>

text \<open>The clock values of the submissions of a run that create a job, in order.\<close>

fun submitTimes :: "event list \<Rightarrow> nat list" where
  "submitTimes [] = []"
| "submitTimes (Execute now (Some opn) selFiles # es) = now # submitTimes es"
| "submitTimes (e # es) = submitTimes es"

text \<open>Two uploaded rasters, and a burst of six submissions within half a second followed
  by the firing of six timers.\<close>

definition uploads2 :: "UploadedFile list" where
  "uploads2 =
     [\<lparr>file_id = ''1'', file_name = ''north.tif'', file_size = 2048, file_type = Raster,
        path = ''north.tif'', uploadedAt = 10\<rparr>,
      \<lparr>file_id = ''2'', file_name = ''south.tif'', file_size = 4096, file_type = Raster,
        path = ''south.tif'', uploadedAt = 20\<rparr>]"

definition burst6 :: "event list" where
  "burst6 =
     [Execute 1000 (Some Resample) [''1''], Execute 1100 (Some Resample) [''1''],
      Execute 1200 (Some Resample) [''1''], Execute 1300 (Some Resample) [''1''],
      Execute 1400 (Some Resample) [''1''], Execute 1500 (Some Resample) [''1''],
      TimerFires, TimerFires, TimerFires, TimerFires, TimerFires, TimerFires]"

text \<open>
  For a burst of submissions inside a window of less than four seconds that starts at
  \<open>t0\<close>: every timer that sets \<open>processing\<close> is due before \<open>t0 + 5000\<close> and every timer that
  sets \<open>completed\<close> is due at \<open>t0 + 5000\<close> or later, no job is completed yet, and no job has
  been deleted. \<open>spCount\<close> counts the pending timers that set \<open>processing\<close>.
\<close>

definition spCount :: "app \<Rightarrow> nat" where
  "spCount s = length (filter (\<lambda>t. snd (snd t) = SetProcessing) (timers s))"

definition burst_inv :: "nat \<Rightarrow> app \<Rightarrow> bool" where
  "burst_inv t0 s =
     (job_inv s
      \<and> (\<forall>t \<in> set (timers s).
            (snd (snd t) = SetProcessing \<longrightarrow> fst t < t0 + 5000)
          \<and> (snd (snd t) = SetCompleted \<longrightarrow> t0 + 5000 \<le> fst t))
      \<and> (\<forall>j < length (heap s). status (heap s ! j) \<noteq> Completed)
      \<and> activeJobs s = [0..<length (heap s)])"

section \<open>Layer visibility: frame properties\<close>

lemma toggleLayerVisibility_length:
  "length (toggleLayerVisibility layerId ls) = length ls"
  by (simp add: toggleLayerVisibility_def)

lemma toggleLayerVisibility_nth:
  assumes "i < length ls"
  shows "toggleLayerVisibility layerId ls ! i =
           (if layer_id (ls ! i) = layerId
            then (ls ! i)\<lparr>visible := \<not> visible (ls ! i)\<rparr> else ls ! i)"
  using assms by (simp add: toggleLayerVisibility_def)

lemma toggleLayerVisibility_twice:
  "toggleLayerVisibility layerId (toggleLayerVisibility layerId ls) = ls"
  by (induction ls) (simp_all add: toggleLayerVisibility_def)

text \<open>
  Claim C9. For every layer list and layer id, \<open>toggleLayerVisibility\<close> keeps the length
  and the order of the list; a layer whose id differs from the given one is unchanged; a
  layer whose id matches has its \<open>visible\<close> flag negated and every other field (id, name,
  type, opacity, file path, metadata, data) unchanged; and applying the operation twice
  with the same id gives back the original list.
\<close>

theorem toggleLayerVisibility_frame:
  "length (toggleLayerVisibility layerId ls) = length ls
   \<and> (\<forall>i < length ls.
        (layer_id (ls ! i) \<noteq> layerId \<longrightarrow> toggleLayerVisibility layerId ls ! i = ls ! i)
      \<and> (layer_id (ls ! i) = layerId \<longrightarrow>
           visible (toggleLayerVisibility layerId ls ! i) = (\<not> visible (ls ! i))
         \<and> toggleLayerVisibility layerId ls ! i = (ls ! i)\<lparr>visible := \<not> visible (ls ! i)\<rparr>
         \<and> layer_id (toggleLayerVisibility layerId ls ! i) = layer_id (ls ! i)
         \<and> layer_name (toggleLayerVisibility layerId ls ! i) = layer_name (ls ! i)
         \<and> layer_type (toggleLayerVisibility layerId ls ! i) = layer_type (ls ! i)
         \<and> opacity (toggleLayerVisibility layerId ls ! i) = opacity (ls ! i)
         \<and> filePath (toggleLayerVisibility layerId ls ! i) = filePath (ls ! i)
         \<and> metadata (toggleLayerVisibility layerId ls ! i) = metadata (ls ! i)
         \<and> data (toggleLayerVisibility layerId ls ! i) = data (ls ! i)))
   \<and> toggleLayerVisibility layerId (toggleLayerVisibility layerId ls) = ls"
  by (simp add: toggleLayerVisibility_length toggleLayerVisibility_nth
      toggleLayerVisibility_twice)

theorem toggleLayerVisibility_frame_witness:
  "toggleLayerVisibility ''a''
     [\<lparr>layer_id = ''a'', layer_name = ''dem.tif'', layer_type = Raster, visible = True,
        opacity = 0.8, filePath = ''up/dem.tif'', metadata = None :: unit option,
        data = None :: unit option\<rparr>,
      \<lparr>layer_id = ''b'', layer_name = ''roads.shp'', layer_type = Vector, visible = True,
        opacity = 0.7, filePath = ''up/roads.shp'', metadata = None, data = None\<rparr>]
   = [\<lparr>layer_id = ''a'', layer_name = ''dem.tif'', layer_type = Raster, visible = False,
        opacity = 0.8, filePath = ''up/dem.tif'', metadata = None, data = None\<rparr>,
      \<lparr>layer_id = ''b'', layer_name = ''roads.shp'', layer_type = Vector, visible = True,
        opacity = 0.7, filePath = ''up/roads.shp'', metadata = None, data = None\<rparr>]
   \<and> toggleLayerVisibility ''a'' (toggleLayerVisibility ''a''
     [\<lparr>layer_id = ''a'', layer_name = ''dem.tif'', layer_type = Raster, visible = True,
        opacity = 0.8, filePath = ''up/dem.tif'', metadata = None :: unit option,
        data = None :: unit option\<rparr>,
      \<lparr>layer_id = ''b'', layer_name = ''roads.shp'', layer_type = Vector, visible = True,
        opacity = 0.7, filePath = ''up/roads.shp'', metadata = None, data = None\<rparr>])
   = [\<lparr>layer_id = ''a'', layer_name = ''dem.tif'', layer_type = Raster, visible = True,
        opacity = 0.8, filePath = ''up/dem.tif'', metadata = None, data = None\<rparr>,
      \<lparr>layer_id = ''b'', layer_name = ''roads.shp'', layer_type = Vector, visible = True,
        opacity = 0.7, filePath = ''up/roads.shp'', metadata = None, data = None\<rparr>]"
  using toggleLayerVisibility_frame [of "''a''"
     "[\<lparr>layer_id = ''a'', layer_name = ''dem.tif'', layer_type = Raster, visible = True,
        opacity = 0.8, filePath = ''up/dem.tif'', metadata = None :: unit option,
        data = None :: unit option\<rparr>,
      \<lparr>layer_id = ''b'', layer_name = ''roads.shp'', layer_type = Vector, visible = True,
        opacity = 0.7, filePath = ''up/roads.shp'', metadata = None, data = None\<rparr>]"]
  by (simp add: toggleLayerVisibility_def)

section \<open>File sizes: the unit index stays inside the unit array\<close>

text \<open>The index is the exponent of the largest power of \<open>k\<close> that fits into the size.\<close>

lemma unitIndex_eqI:
  assumes "k ^ n \<le> b" "b < k ^ (n + 1)" "2 \<le> k"
  shows "unitIndex k b = int n"
  using floor_log_nat_eq_if [OF assms] by (simp add: unitIndex_def log_def)

lemma unitIndex_bounds:
  assumes "1 \<le> b" "b < k ^ m" "2 \<le> k"
  shows "0 \<le> unitIndex k b \<and> unitIndex k b < int m"
proof -
  have lnk: "0 < ln (real k)" using assms(3) by simp
  have "0 \<le> ln (real b)" using assms(1) by simp
  then have lo: "0 \<le> ln (real b) / ln (real k)" using lnk by simp
  have rb: "real b < real k ^ m" using assms(2)
    by (metis of_nat_less_iff of_nat_power)
  have pb: "0 < real b" using assms(1) by simp
  have pk: "0 < real k ^ m" using assms(3) by simp
  have "ln (real b) < ln (real k ^ m)" using ln_less_cancel_iff [OF pb pk] rb by blast
  also have "\<dots> = real m * ln (real k)" using assms(3) by (simp add: ln_realpow)
  finally have "ln (real b) / ln (real k) < real m" using lnk by (simp add: divide_less_eq)
  then have "\<lfloor>ln (real b) / ln (real k)\<rfloor> < int m" by (simp add: floor_less_iff)
  with lo show ?thesis by (simp add: unitIndex_def)
qed

lemma sizesAt_in_bounds:
  assumes "0 \<le> i" "i < 4"
  shows "sizesAt i = sizes ! nat i" "sizesAt i \<in> set sizes"
proof -
  show eq: "sizesAt i = sizes ! nat i" using assms by (simp add: sizesAt_def sizes_def)
  have "nat i < length sizes" using assms by (simp add: sizes_def)
  then show "sizesAt i \<in> set sizes" unfolding eq by (rule nth_mem)
qed

text \<open>
  Claim C10. \<open>formatFileSize\<close> returns \<open>0 Bytes\<close> for 0 bytes, and for every byte count
  \<open>b\<close> with \<open>1 \<le> b < 1024\<^sup>4\<close> the unit index \<open>\<lfloor>log\<^bsub>1024\<^esub> b\<rfloor>\<close> is at least 0 and
  below the length 4 of the unit array, so the result is a number, a space and one of
  the four units \<open>Bytes\<close>, \<open>KB\<close>, \<open>MB\<close>, \<open>GB\<close> (never the out-of-bounds \<open>undefined\<close>).
\<close>

theorem formatFileSize_safe:
  "formatFileSize 0 = ''0 Bytes''
   \<and> (1 \<le> b \<and> b < 1024 ^ 4 \<longrightarrow>
        0 \<le> unitIndex 1024 b \<and> unitIndex 1024 b < int (length sizes)
      \<and> sizesAt (unitIndex 1024 b) \<in> set sizes
      \<and> formatFileSize b =
          showHundredths (toFixed2 b (1024 ^ nat (unitIndex 1024 b)))
            @ '' '' @ sizes ! nat (unitIndex 1024 b))"
proof (intro conjI impI)
  show "formatFileSize 0 = ''0 Bytes''" by (simp add: formatFileSize_def)
next
  assume b: "1 \<le> b \<and> b < 1024 ^ 4"
  then have bounds: "0 \<le> unitIndex 1024 b \<and> unitIndex 1024 b < int 4"
    by (intro unitIndex_bounds) simp_all
  then show "0 \<le> unitIndex 1024 b" by simp
  from bounds show "unitIndex 1024 b < int (length sizes)" by (simp add: sizes_def)
  from bounds show "sizesAt (unitIndex 1024 b) \<in> set sizes"
    by (intro sizesAt_in_bounds) simp_all
  from bounds have "sizesAt (unitIndex 1024 b) = sizes ! nat (unitIndex 1024 b)"
    by (intro sizesAt_in_bounds) simp_all
  with b show "formatFileSize b =
      showHundredths (toFixed2 b (1024 ^ nat (unitIndex 1024 b)))
        @ '' '' @ sizes ! nat (unitIndex 1024 b)"
    by (simp add: formatFileSize_def Let_def)
qed

theorem formatFileSize_safe_witness:
  "(1::nat) \<le> 1536 \<and> (1536::nat) < 1024 ^ 4 \<and> unitIndex 1024 1536 = 1
   \<and> formatFileSize 1536 = ''1.5 KB'' \<and> formatFileSize 0 = ''0 Bytes''"
proof -
  have i: "unitIndex 1024 1536 = int 1" by (rule unitIndex_eqI) simp_all
  show ?thesis
    using formatFileSize_safe [of 1536] i
    by (simp add: toFixed2_def showHundredths_def toString.simps digit_def sizes_def)
qed

section \<open>The invariant holds in every reachable state\<close>

lemma nextTimer_None: "nextTimer ts = None \<longleftrightarrow> ts = []"
  by (induction ts) (auto split: option.splits)

lemma nextTimer_Some:
  "nextTimer ts = Some t \<Longrightarrow> t \<in> set ts \<and> (\<forall>u \<in> set ts. fst t \<le> fst u)"
proof (induction ts arbitrary: t)
  case Nil
  then show ?case by simp
next
  case (Cons a ts)
  show ?case
  proof (cases "nextTimer ts")
    case None
    then have "ts = []" by (simp add: nextTimer_None)
    with Cons.prems None show ?thesis by simp
  next
    case (Some u)
    from Cons.IH [OF Some] have u: "u \<in> set ts" "\<forall>v \<in> set ts. fst u \<le> fst v" by simp_all
    show ?thesis
    proof (cases "fst a \<le> fst u")
      case True
      with Cons.prems Some have "t = a" by simp
      with True u show ?thesis by fastforce
    next
      case False
      with Cons.prems Some have "t = u" by simp
      with False u show ?thesis by fastforce
    qed
  qed
qed

lemma inv_init: "job_inv init"
  by (simp add: job_inv_def init_def)

lemma timersOf_remove1_other:
  "fst (snd t) \<noteq> j \<Longrightarrow> filter (\<lambda>u. fst (snd u) = j) (remove1 t ts) = filter (\<lambda>u. fst (snd u) = j) ts"
  by (simp add: filter_remove1 remove1_filter_not)

text \<open>What the next timer can be in a state that satisfies the invariant.\<close>

lemma fireTimer_cases:
  assumes "job_inv s" "nextTimer (timers s) = Some (due, j, cb)"
  shows "j < length (heap s)
       \<and> (cb = SetProcessing \<and> status (heap s ! j) = Pending
            \<and> map (snd \<circ> snd) (remove1 (due, j, cb) (timersOf j s)) = [SetCompleted]
          \<or> cb = SetCompleted \<and> status (heap s ! j) = Processing
            \<and> remove1 (due, j, cb) (timersOf j s) = [])"
proof -
  let ?t = "(due, j, cb)"
  from nextTimer_Some [OF assms(2)]
  have mem: "?t \<in> set (timers s)" and least: "\<forall>u \<in> set (timers s). due \<le> fst u" by auto
  from assms(1) mem have j: "j < length (heap s)" by (fastforce simp: job_inv_def)
  with assms(1) have ph: "phaseOK s j" by (simp add: job_inv_def)
  from mem have memj: "?t \<in> set (timersOf j s)" by (simp add: timersOf_def)
  have sub: "set (timersOf j s) \<subseteq> set (timers s)" by (auto simp: timersOf_def)
  show ?thesis
  proof (cases "status (heap s ! j)")
    case Pending
    with ph obtain a b where ab: "timersOf j s = [a, b]" "snd (snd a) = SetProcessing"
      "snd (snd b) = SetCompleted" "fst a < fst b"
      by (auto simp: phaseOK_def Let_def map_eq_Cons_conv)
    from sub ab(1) have "a \<in> set (timers s)" by simp
    with least have "due \<le> fst a" by blast
    with ab(4) have "?t \<noteq> b" by auto
    with memj ab(1) have "?t = a" by auto
    with ab Pending j show ?thesis by auto
  next
    case Processing
    with ph obtain b where b: "timersOf j s = [b]" "snd (snd b) = SetCompleted"
      by (auto simp: phaseOK_def Let_def map_eq_Cons_conv)
    with memj have "?t = b" by auto
    with b Processing j show ?thesis by auto
  next
    case Completed
    with ph memj show ?thesis by (auto simp: phaseOK_def Let_def)
  next
    case Failed
    with ph show ?thesis by (auto simp: phaseOK_def Let_def)
  qed
qed

lemma inv_fireTimer:
  assumes "job_inv s"
  shows "job_inv (fireTimer s)"
proof (cases "nextTimer (timers s)")
  case None
  with assms show ?thesis by (simp add: fireTimer_def)
next
  case (Some t)
  obtain due j cb where t: "t = (due, j, cb)" by (cases t)
  let ?s' = "fireTimer s"
  have s': "?s' = s\<lparr>timers := remove1 t (timers s),
                     heap := (heap s)[j := runCallback cb (heap s ! j)]\<rparr>"
    using Some t by (simp add: fireTimer_def)
  from fireTimer_cases [OF assms Some [unfolded t]]
  have j: "j < length (heap s)"
    and cs: "cb = SetProcessing \<and> status (heap s ! j) = Pending
            \<and> map (snd \<circ> snd) (remove1 t (timersOf j s)) = [SetCompleted]
          \<or> cb = SetCompleted \<and> status (heap s ! j) = Processing
            \<and> remove1 t (timersOf j s) = []"
    unfolding t by auto
  have tj: "timersOf j ?s' = remove1 t (timersOf j s)"
    by (simp add: s' timersOf_def filter_remove1)
  have phj: "phaseOK s j" using assms j by (simp add: job_inv_def)
  have "phaseOK ?s' i" if i: "i < length (heap s)" for i
  proof (cases "i = j")
    case True
    from cs show ?thesis
    proof
      assume a: "cb = SetProcessing \<and> status (heap s ! j) = Pending
            \<and> map (snd \<circ> snd) (remove1 t (timersOf j s)) = [SetCompleted]"
      with phj j tj show ?thesis unfolding True
        by (simp add: phaseOK_def Let_def s')
    next
      assume a: "cb = SetCompleted \<and> status (heap s ! j) = Processing
            \<and> remove1 t (timersOf j s) = []"
      with phj j tj show ?thesis unfolding True
        by (simp add: phaseOK_def Let_def s')
    qed
  next
    case False
    have "timersOf i ?s' = timersOf i s"
      using False by (simp add: s' timersOf_def t timersOf_remove1_other)
    moreover have "heap ?s' ! i = heap s ! i" using False by (simp add: s')
    moreover have "phaseOK s i" using assms i by (simp add: job_inv_def)
    ultimately show ?thesis by (simp add: phaseOK_def)
  qed
  moreover have "length (heap ?s') = length (heap s)" by (simp add: s')
  moreover have "set (timers ?s') \<subseteq> set (timers s)" using set_remove1_subset [of t "timers s"] by (simp add: s')
  moreover have "activeJobs ?s' = activeJobs s" by (simp add: s')
  ultimately show ?thesis using assms by (auto simp: job_inv_def)
qed

lemma inv_handleDelete: "job_inv s \<Longrightarrow> job_inv (handleDelete jobId s)"
  by (simp add: job_inv_def handleDelete_def phaseOK_def timersOf_def)

lemma inv_handleExecute:
  assumes "job_inv s"
  shows "job_inv (handleExecute now selectedOp selFiles s)"
proof (cases selectedOp)
  case None
  with assms show ?thesis by (simp add: handleExecute_def)
next
  case (Some opn)
  let ?n = "length (heap s)"
  let ?s' = "handleExecute now selectedOp selFiles s"
  have h: "heap ?s' = heap s @ [newJob now opn selFiles]"
    and tm: "timers ?s' = timers s @ [(now + 1000, ?n, SetProcessing), (now + 5000, ?n, SetCompleted)]"
    and aj: "activeJobs ?s' = activeJobs s @ [?n]"
    using Some by (simp_all add: handleExecute_def handleJobCreate_def Let_def)
  have old: "filter (\<lambda>t. fst (snd t) = ?n) (timers s) = []"
    using assms by (auto simp: job_inv_def filter_empty_conv)
  have "phaseOK ?s' i" if "i < length (heap ?s')" for i
  proof (cases "i = ?n")
    case True
    then show ?thesis
      by (simp add: phaseOK_def Let_def timersOf_def h tm old newJob_def)
  next
    case False
    with that have i: "i < ?n" by (simp add: h)
    then have "phaseOK s i" using assms by (simp add: job_inv_def)
    moreover have "timersOf i ?s' = timersOf i s" using i by (simp add: timersOf_def tm)
    moreover have "heap ?s' ! i = heap s ! i" using i by (simp add: h nth_append)
    ultimately show ?thesis by (simp add: phaseOK_def)
  qed
  moreover have "\<forall>t \<in> set (timers ?s'). fst (snd t) < length (heap ?s')"
    using assms by (auto simp: job_inv_def tm h)
  moreover have "\<forall>j \<in> set (activeJobs ?s'). j < length (heap ?s')"
    using assms by (auto simp: job_inv_def aj h)
  ultimately show ?thesis by (simp add: job_inv_def)
qed

lemma inv_step: "job_inv s \<Longrightarrow> job_inv (step e s)"
  by (cases e) (simp_all add: inv_handleExecute inv_handleDelete inv_fireTimer)

lemma inv_run: "job_inv s \<Longrightarrow> job_inv (run es s)"
  by (induction es arbitrary: s) (simp_all add: inv_step)

lemma inv_reachable: "job_inv (run es init)"
  by (simp add: inv_run inv_init)

section \<open>Status transitions\<close>

lemma length_heap_step: "length (heap (step e s)) \<ge> length (heap s)"
  by (cases e)
     (auto simp: handleExecute_def handleJobCreate_def Let_def handleDelete_def fireTimer_def
           split: option.splits)

lemma length_heap_run: "length (heap (run es s)) \<ge> length (heap s)"
proof (induction es arbitrary: s)
  case Nil
  show ?case by simp
next
  case (Cons e es)
  have "length (heap s) \<le> length (heap (step e s))" by (rule length_heap_step)
  also have "\<dots> \<le> length (heap (run es (step e s)))" by (rule Cons.IH)
  finally show ?case by simp
qed

lemma fireTimer_status:
  assumes "job_inv s" "i < length (heap s)"
  shows "status (heap (fireTimer s) ! i) = status (heap s ! i)
       \<or> transition (status (heap s ! i)) (status (heap (fireTimer s) ! i))"
proof (cases "nextTimer (timers s)")
  case None
  then show ?thesis by (simp add: fireTimer_def)
next
  case (Some t)
  obtain due j cb where t: "t = (due, j, cb)" by (cases t)
  from fireTimer_cases [OF assms(1) Some [unfolded t]] assms(2) Some t
  show ?thesis by (cases "i = j") (auto simp: fireTimer_def)
qed

lemma step_status:
  assumes "job_inv s" "i < length (heap s)"
  shows "status (heap (step e s) ! i) = status (heap s ! i)
       \<or> transition (status (heap s ! i)) (status (heap (step e s) ! i))"
proof (cases e)
  case (Execute now selectedOp selFiles)
  with assms(2) show ?thesis
    by (cases selectedOp) (simp_all add: handleExecute_def handleJobCreate_def Let_def nth_append)
next
  case (Delete jobId)
  then show ?thesis by (simp add: handleDelete_def)
next
  case TimerFires
  with fireTimer_status [OF assms] show ?thesis by simp
qed

lemma transition_not_terminal: "transition a b \<Longrightarrow> \<not> terminal a"
  by (cases a; cases b) (simp_all add: terminal_def)

lemma run_terminal:
  assumes "job_inv s" "i < length (heap s)" "terminal (status (heap s ! i))"
  shows "status (heap (run es s) ! i) = status (heap s ! i)"
  using assms
proof (induction es arbitrary: s)
  case Nil
  show ?case by simp
next
  case (Cons e es)
  from step_status [OF Cons.prems(1,2)] Cons.prems(3)
  have eq: "status (heap (step e s) ! i) = status (heap s ! i)"
    by (auto dest: transition_not_terminal)
  have "i < length (heap (step e s))"
    using Cons.prems(2) length_heap_step [of s e] by simp
  with Cons.IH [of "step e s"] Cons.prems eq show ?case by (simp add: inv_step)
qed

text \<open>
  Claim C1. In every state reached from the empty application by any sequence of
  operations (submissions, deletions, timer firings), every further operation leaves the
  status of each job object as it is or moves it along one transition of the state
  machine (\<open>pending\<close> to \<open>processing\<close>, \<open>processing\<close> to \<open>completed\<close> or \<open>failed\<close>); and once
  the status of a job is terminal, no later sequence of operations changes it. The code
  has no cancellation, so no further transition exists.
\<close>

theorem status_moves_forward:
  assumes "j < length (heap (run es init))"
  shows "(status (heap (step e (run es init)) ! j) = status (heap (run es init) ! j)
          \<or> transition (status (heap (run es init) ! j))
                        (status (heap (step e (run es init)) ! j)))
       \<and> (terminal (status (heap (run es init) ! j)) \<longrightarrow>
            status (heap (run es' (run es init)) ! j) = status (heap (run es init) ! j))"
  using step_status [OF inv_reachable assms] run_terminal [OF inv_reachable assms]
  by blast

lemmas eval_defs = handleExecute_def handleJobCreate_def Let_def newJob_def fireTimer_def
  init_def handleDelete_def terminal_def toString.simps digit_def

theorem status_moves_forward_witness:
  "0 < length (heap (run [Execute 1000 (Some Resample) [''a''], TimerFires, TimerFires] init))
   \<and> status (heap (run [Execute 1000 (Some Resample) [''a''], TimerFires, TimerFires] init) ! 0)
       = Completed
   \<and> terminal Completed
   \<and> status (heap (run [TimerFires, Delete ''1000'', Execute 7000 (Some Clip) [''a'', ''b'']]
        (run [Execute 1000 (Some Resample) [''a''], TimerFires, TimerFires] init)) ! 0)
       = Completed"
  using status_moves_forward [of 0 "[Execute 1000 (Some Resample) [''a''], TimerFires, TimerFires]"
     TimerFires "[TimerFires, Delete ''1000'', Execute 7000 (Some Clip) [''a'', ''b'']]"]
  by (simp add: eval_defs)

lemma phase_facts:
  assumes "job_inv s" "j < length (heap s)"
  shows "error (heap s ! j) = None"
    "status (heap s ! j) \<noteq> Failed"
    "status (heap s ! j) = Pending \<Longrightarrow> progress (heap s ! j) = 0 \<and> output_file (heap s ! j) = None"
    "status (heap s ! j) = Processing \<Longrightarrow> progress (heap s ! j) = 50 \<and> output_file (heap s ! j) = None"
    "status (heap s ! j) = Completed \<Longrightarrow> progress (heap s ! j) = 100
        \<and> output_file (heap s ! j) = Some (''result_'' @ job_id (heap s ! j) @ ''.tif'')"
  using assms by (auto simp: job_inv_def phaseOK_def Let_def split: job_status.splits)

text \<open>
  Claim C3. For every job object in every reachable state, \<open>output_file\<close> and \<open>error\<close> are
  never both set, both are unset unless the status is terminal, and \<open>output_file\<close> is set
  only when the status is \<open>completed\<close>.
\<close>

theorem result_only_when_completed:
  assumes "j < length (heap (run es init))"
  shows "\<not> (output_file (heap (run es init) ! j) \<noteq> None \<and> error (heap (run es init) ! j) \<noteq> None)
       \<and> (\<not> terminal (status (heap (run es init) ! j)) \<longrightarrow>
            output_file (heap (run es init) ! j) = None \<and> error (heap (run es init) ! j) = None)
       \<and> (output_file (heap (run es init) ! j) \<noteq> None \<longrightarrow>
            status (heap (run es init) ! j) = Completed)"
  using phase_facts [OF inv_reachable assms]
  by (cases "status (heap (run es init) ! j)") (simp_all add: terminal_def)

theorem result_only_when_completed_witness:
  "0 < length (heap (run [Execute 1000 (Some Resample) [''a''], TimerFires] init))
   \<and> \<not> terminal (status (heap (run [Execute 1000 (Some Resample) [''a''], TimerFires] init) ! 0))
   \<and> output_file (heap (run [Execute 1000 (Some Resample) [''a''], TimerFires] init) ! 0) = None
   \<and> error (heap (run [Execute 1000 (Some Resample) [''a''], TimerFires] init) ! 0) = None
   \<and> output_file (heap (run [Execute 1000 (Some Resample) [''a''], TimerFires, TimerFires] init) ! 0)
       = Some ''result_1000.tif''
   \<and> status (heap (run [Execute 1000 (Some Resample) [''a''], TimerFires, TimerFires] init) ! 0)
       = Completed"
  using result_only_when_completed [of 0 "[Execute 1000 (Some Resample) [''a''], TimerFires]"]
    result_only_when_completed [of 0
      "[Execute 1000 (Some Resample) [''a''], TimerFires, TimerFires]"]
  by (simp add: eval_defs)

section \<open>The life of one job\<close>

lemma job_id_runCallback: "job_id (runCallback cb job) = job_id job"
  by (cases cb) simp_all

lemma nth_update_heap: "j < length h \<Longrightarrow> h[i := x] ! j = (if i = j then x else h ! j)"
  by (cases "i = j") simp_all

lemma job_id_step:
  assumes "j < length (heap s)"
  shows "job_id (heap (step e s) ! j) = job_id (heap s ! j)"
proof (cases e)
  case (Execute now selectedOp selFiles)
  with assms show ?thesis
    by (cases selectedOp) (simp_all add: handleExecute_def handleJobCreate_def Let_def nth_append)
next
  case (Delete jobId)
  then show ?thesis by (simp add: handleDelete_def)
next
  case TimerFires
  with assms show ?thesis
    by (auto simp: fireTimer_def nth_update_heap job_id_runCallback split: option.splits)
qed

lemma job_id_run:
  assumes "j < length (heap s)"
  shows "job_id (heap (run es s) ! j) = job_id (heap s ! j)"
  using assms
proof (induction es arbitrary: s)
  case Nil
  show ?case by simp
next
  case (Cons e es)
  have "j < length (heap (step e s))"
    using Cons.prems length_heap_step [of s e] by simp
  with Cons.IH [of "step e s"] job_id_step [OF Cons.prems] show ?case by simp
qed

lemma timers_drained:
  assumes "job_inv s" "timers s = []" "j < length (heap s)"
  shows "status (heap s ! j) = Completed"
proof -
  from assms(1,3) have "phaseOK s j" by (simp add: job_inv_def)
  with assms(2) show ?thesis
    by (cases "status (heap s ! j)") (simp_all add: phaseOK_def timersOf_def Let_def)
qed

lemma length_timers_fireTimer: "length (timers (fireTimer s)) = length (timers s) - 1"
proof (cases "nextTimer (timers s)")
  case None
  then show ?thesis by (simp add: fireTimer_def nextTimer_None)
next
  case (Some t)
  then have "t \<in> set (timers s)" by (simp add: nextTimer_Some)
  with Some show ?thesis by (cases t) (simp add: fireTimer_def length_remove1)
qed

lemma length_timers_drain:
  "length (timers (run (replicate n TimerFires) s)) = length (timers s) - n"
  by (induction n arbitrary: s) (simp_all add: length_timers_fireTimer)

lemma drain_completes:
  assumes "job_inv s" "j < length (heap s)"
  shows "status (heap (run (replicate (length (timers s)) TimerFires) s) ! j) = Completed"
proof (rule timers_drained)
  show "job_inv (run (replicate (length (timers s)) TimerFires) s)"
    using assms(1) by (rule inv_run)
  show "timers (run (replicate (length (timers s)) TimerFires) s) = []"
    using length_timers_drain [of "length (timers s)" s] by simp
  show "j < length (heap (run (replicate (length (timers s)) TimerFires) s))"
    using assms(2) length_heap_run [of s "replicate (length (timers s)) TimerFires"] by simp
qed

lemma passes_processing:
  assumes "job_inv s" "j < length (heap s)" "status (heap s ! j) = Pending"
    "status (heap (run (replicate n TimerFires) s) ! j) = Completed"
  shows "\<exists>k<n. status (heap (run (replicate k TimerFires) s) ! j) = Processing"
  using assms
proof (induction n arbitrary: s)
  case 0
  then show ?case by simp
next
  case (Suc n)
  let ?s2 = "fireTimer s"
  have inv2: "job_inv ?s2" using Suc.prems(1) by (rule inv_fireTimer)
  have j2: "j < length (heap ?s2)"
    using Suc.prems(2) length_heap_step [of s TimerFires] by simp
  have fin: "status (heap (run (replicate n TimerFires) ?s2) ! j) = Completed"
    using Suc.prems(4) by simp
  from fireTimer_status [OF Suc.prems(1,2)] Suc.prems(3)
  have "status (heap ?s2 ! j) = Pending \<or> status (heap ?s2 ! j) = Processing"
    by (cases "status (heap ?s2 ! j)") auto
  then show ?case
  proof
    assume "status (heap ?s2 ! j) = Pending"
    from Suc.IH [OF inv2 j2 this fin] obtain k where
      "k < n" "status (heap (run (replicate k TimerFires) ?s2) ! j) = Processing" by blast
    then have "Suc k < Suc n \<and> status (heap (run (replicate (Suc k) TimerFires) s) ! j) = Processing"
      by simp
    then show ?thesis by blast
  next
    assume p: "status (heap ?s2 ! j) = Processing"
    then have "1 < Suc n \<and> status (heap (run (replicate 1 TimerFires) s) ! j) = Processing"
      using fin by (cases n) auto
    then show ?thesis by blast
  qed
qed

lemma step_progress:
  assumes "job_inv s" "j < length (heap s)"
  shows "progress (heap s ! j) \<le> progress (heap (step e s) ! j)
       \<and> (status (heap (step e s) ! j) \<noteq> status (heap s ! j) \<longrightarrow>
            progress (heap s ! j) < progress (heap (step e s) ! j))"
proof -
  have inv2: "job_inv (step e s)" using assms(1) by (rule inv_step)
  have j2: "j < length (heap (step e s))" using assms(2) length_heap_step [of s e] by simp
  note a = phase_facts [OF assms] and b = phase_facts [OF inv2 j2]
  from step_status [OF assms, of e] show ?thesis
  proof
    assume "status (heap (step e s) ! j) = status (heap s ! j)"
    with a b show ?thesis by (cases "status (heap s ! j)") simp_all
  next
    assume "transition (status (heap s ! j)) (status (heap (step e s) ! j))"
    with a b show ?thesis
      by (cases "status (heap s ! j)"; cases "status (heap (step e s) ! j)") simp_all
  qed
qed

lemma handleExecute_new_job:
  "heap (handleExecute now (Some opn) selFiles s) ! length (heap s) = newJob now opn selFiles"
  "length (heap (handleExecute now (Some opn) selFiles s)) = Suc (length (heap s))"
  "activeJobs (handleExecute now (Some opn) selFiles s) = activeJobs s @ [length (heap s)]"
  by (simp_all add: handleExecute_def handleJobCreate_def Let_def)

text \<open>
  Claim C6. Submitting \<open>resample\<close> on one input \<open>f\<close> at time \<open>now\<close>, in any reachable state,
  creates a new job, appended at the end of the job list that the tracker shows, that
  starts \<open>pending\<close> with progress 0. Whatever happens afterwards
  (\<open>es'\<close>), the job is \<open>pending\<close> with progress 0, \<open>processing\<close> with progress 50, or
  \<open>completed\<close> with progress 100 and the result \<open>result_<id>.tif\<close>; no operation lowers
  its progress and every change of status raises it; as the timers fire the job passes
  through \<open>processing\<close>; and once all pending timers have fired it is \<open>completed\<close> with a
  non-empty result reference.
\<close>

theorem resample_job_lifecycle:
  "let s0 = run es init; j = length (heap s0);
       s1 = handleExecute now (Some Resample) [f] s0;
       s' = run es' s1;
       sf = run (replicate (length (timers s')) TimerFires) s';
       result = ''result_'' @ toString now @ ''.tif''
   in activeJobs s1 = activeJobs s0 @ [j] \<and> j \<notin> set (activeJobs s0)
    \<and> jobs s1 = jobs s0 @ [heap s1 ! j]
    \<and> job_type (heap s1 ! j) = Resample \<and> input_files (heap s1 ! j) = [f]
    \<and> (status (heap s1 ! j), progress (heap s1 ! j), output_file (heap s1 ! j))
        = (Pending, 0, None)
    \<and> (status (heap s' ! j), progress (heap s' ! j), output_file (heap s' ! j))
        \<in> {(Pending, 0, None), (Processing, 50, None), (Completed, 100, Some result)}
    \<and> progress (heap s' ! j) \<le> progress (heap (step e s') ! j)
    \<and> (status (heap (step e s') ! j) \<noteq> status (heap s' ! j) \<longrightarrow>
         progress (heap s' ! j) < progress (heap (step e s') ! j))
    \<and> (\<exists>k < length (timers s1).
         status (heap (run (replicate k TimerFires) s1) ! j) = Processing
       \<and> progress (heap (run (replicate k TimerFires) s1) ! j) = 50)
    \<and> (status (heap sf ! j), progress (heap sf ! j), output_file (heap sf ! j))
        = (Completed, 100, Some result)
    \<and> result \<noteq> ''''"
proof -
  define s0 where "s0 = run es init"
  define j where "j = length (heap s0)"
  define s1 where "s1 = handleExecute now (Some Resample) [f] s0"
  define s' where "s' = run es' s1"
  define sf where "sf = run (replicate (length (timers s')) TimerFires) s'"
  define result where "result = ''result_'' @ toString now @ ''.tif''"
  have inv0: "job_inv s0" unfolding s0_def by (rule inv_reachable)
  then have old: "\<forall>i \<in> set (activeJobs s0). i < j" by (simp add: job_inv_def j_def)
  have a1: "activeJobs s1 = activeJobs s0 @ [j]"
    unfolding s1_def j_def by (simp add: handleExecute_new_job)
  have h1: "heap s1 = heap s0 @ [newJob now Resample [f]]"
    unfolding s1_def by (simp add: handleExecute_def handleJobCreate_def Let_def)
  have "map (\<lambda>i. heap s1 ! i) (activeJobs s0) = map (\<lambda>i. heap s0 ! i) (activeJobs s0)"
    using old by (simp add: h1 nth_append j_def)
  then have c0: "activeJobs s1 = activeJobs s0 @ [j] \<and> j \<notin> set (activeJobs s0)
      \<and> jobs s1 = jobs s0 @ [heap s1 ! j]"
    using old a1 by (auto simp: jobs_def)
  have inv1: "job_inv s1" unfolding s1_def s0_def by (intro inv_handleExecute inv_reachable)
  have new: "heap s1 ! j = newJob now Resample [f]" and j1: "j < length (heap s1)"
    unfolding s1_def j_def by (simp_all add: handleExecute_new_job)
  have inv': "job_inv s'" unfolding s'_def using inv1 by (rule inv_run)
  have j': "j < length (heap s')"
    unfolding s'_def using j1 length_heap_run [of s1 es'] by simp
  have invf: "job_inv sf" unfolding sf_def using inv' by (rule inv_run)
  have jf: "j < length (heap sf)"
    unfolding sf_def using j' length_heap_run [of s' "replicate (length (timers s')) TimerFires"]
    by simp
  have id': "job_id (heap s' ! j) = toString now"
    unfolding s'_def using job_id_run [OF j1, of es'] new by (simp add: newJob_def)
  have idf: "job_id (heap sf ! j) = toString now"
    unfolding sf_def using job_id_run [OF j', of "replicate (length (timers s')) TimerFires"] id'
    by simp
  have stf: "status (heap sf ! j) = Completed"
    unfolding sf_def using inv' j' by (rule drain_completes)
  have c1: "job_type (heap s1 ! j) = Resample \<and> input_files (heap s1 ! j) = [f]
      \<and> (status (heap s1 ! j), progress (heap s1 ! j), output_file (heap s1 ! j))
          = (Pending, 0, None)"
    by (simp add: new newJob_def)
  have c2: "(status (heap s' ! j), progress (heap s' ! j), output_file (heap s' ! j))
        \<in> {(Pending, 0, None), (Processing, 50, None), (Completed, 100, Some result)}"
    using phase_facts [OF inv' j'] id'
    by (cases "status (heap s' ! j)") (simp_all add: result_def)
  have c3: "progress (heap s' ! j) \<le> progress (heap (step e s') ! j)
    \<and> (status (heap (step e s') ! j) \<noteq> status (heap s' ! j) \<longrightarrow>
         progress (heap s' ! j) < progress (heap (step e s') ! j))"
    using inv' j' by (rule step_progress)
  have "status (heap (run (replicate (length (timers s1)) TimerFires) s1) ! j) = Completed"
    using inv1 j1 by (rule drain_completes)
  with passes_processing [OF inv1 j1, of "length (timers s1)"] c1
  obtain k where k: "k < length (timers s1)"
    "status (heap (run (replicate k TimerFires) s1) ! j) = Processing" by auto
  have "job_inv (run (replicate k TimerFires) s1)" using inv1 by (rule inv_run)
  moreover have "j < length (heap (run (replicate k TimerFires) s1))"
    using j1 length_heap_run [of s1 "replicate k TimerFires"] by simp
  ultimately have "progress (heap (run (replicate k TimerFires) s1) ! j) = 50"
    using phase_facts(4) k(2) by blast
  with k have c4: "\<exists>k < length (timers s1).
         status (heap (run (replicate k TimerFires) s1) ! j) = Processing
       \<and> progress (heap (run (replicate k TimerFires) s1) ! j) = 50" by blast
  have c5: "(status (heap sf ! j), progress (heap sf ! j), output_file (heap sf ! j))
        = (Completed, 100, Some result)"
    using phase_facts(5) [OF invf jf stf] stf idf by (simp add: result_def)
  have c6: "result \<noteq> ''''" by (simp add: result_def)
  from c0 c1 c2 c3 c4 c5 c6 show ?thesis
    unfolding Let_def s0_def [symmetric] j_def [symmetric] s1_def [symmetric]
      s'_def [symmetric] sf_def [symmetric] result_def [symmetric]
    by blast
qed

theorem resample_job_lifecycle_witness:
  "map (\<lambda>s. map (\<lambda>job. (status job, progress job, output_file job)) (jobs s))
     [init,
      run [Execute 1000 (Some Resample) [''a'']] init,
      run [Execute 1000 (Some Resample) [''a''], TimerFires] init,
      run [Execute 1000 (Some Resample) [''a''], TimerFires, TimerFires] init]
   = [[], [(Pending, 0, None)], [(Processing, 50, None)],
      [(Completed, 100, Some ''result_1000.tif'')]]
   \<and> activeJobs (handleExecute 1000 (Some Resample) [''a''] (run [] init)) = [0]"
  using resample_job_lifecycle [of "[]" 1000 "''a''" "[TimerFires]" TimerFires]
  by (simp add: eval_defs jobs_def)

section \<open>Submission: what the panel checks\<close>

text \<open>
  Claim C5 fails as stated. With two rasters uploaded the mosaic operation can be
  selected; with one of them ticked the execute button is enabled, and executing creates
  a mosaic job with that single input: the job list goes from empty to one job.
\<close>

theorem mosaic_single_input_counterexample:
  "canExecuteOperation uploads2 (operations ! 3)
   \<and> op_id (operations ! 3) = Mosaic
   \<and> selectedOperation (changeFileCheckbox ''1'' True (clickOperation uploads2 (operations ! 3) panel0))
       = Some Mosaic
   \<and> selectedFiles (changeFileCheckbox ''1'' True (clickOperation uploads2 (operations ! 3) panel0))
       = [''1'']
   \<and> \<not> executeDisabled (changeFileCheckbox ''1'' True (clickOperation uploads2 (operations ! 3) panel0))
   \<and> activeJobs init = []
   \<and> activeJobs (clickExecute 1000
        (changeFileCheckbox ''1'' True (clickOperation uploads2 (operations ! 3) panel0)) init) = [0]
   \<and> job_type (heap (clickExecute 1000
        (changeFileCheckbox ''1'' True (clickOperation uploads2 (operations ! 3) panel0)) init) ! 0) = Mosaic
   \<and> input_files (heap (clickExecute 1000
        (changeFileCheckbox ''1'' True (clickOperation uploads2 (operations ! 3) panel0)) init) ! 0) = [''1'']"
  by (simp add: canExecuteOperation_def uploads2_def operations_def rasterFiles_def vectorFiles_def
      clickOperation_def changeFileCheckbox_def panel0_def executeDisabled_def clickExecute_def
      eval_defs)

text \<open>
  Claim C5, amended. The panel checks the requirement of mosaic against the number of
  uploaded raster files when the operation is selected: with fewer than two rasters
  uploaded the operation cannot be selected, with two or more it can. A submission
  creates no job while no operation or no file is selected, and otherwise appends exactly
  one pending job with the selected files as inputs, however many they are.
\<close>

theorem mosaic_selection_guard:
  "op_id (operations ! 3) = Mosaic
   \<and> requirements (operations ! 3) = \<lparr>req_raster = Some 2, req_vector = None\<rparr>
   \<and> (length (rasterFiles files) < 2 \<longrightarrow>
      \<not> canExecuteOperation files (operations ! 3)
    \<and> clickOperation files (operations ! 3) p = p)
   \<and> (2 \<le> length (rasterFiles files) \<longrightarrow>
      selectedOperation (clickOperation files (operations ! 3) p) = Some Mosaic)
   \<and> handleExecute now None selFiles s = s
   \<and> (selectedOperation p = None \<or> selectedFiles p = [] \<longrightarrow> clickExecute now p s = s)
   \<and> (selectedOperation p = Some opn \<and> selectedFiles p \<noteq> [] \<longrightarrow>
        activeJobs (clickExecute now p s) = activeJobs s @ [length (heap s)]
      \<and> heap (clickExecute now p s) = heap s @ [newJob now opn (selectedFiles p)])"
  by (auto simp: canExecuteOperation_def operations_def clickOperation_def
      handleExecute_def clickExecute_def executeDisabled_def handleJobCreate_def Let_def)

theorem mosaic_selection_guard_witness:
  "length (rasterFiles [hd uploads2]) < 2
   \<and> \<not> canExecuteOperation [hd uploads2] (operations ! 3)
   \<and> clickOperation [hd uploads2] (operations ! 3) panel0 = panel0
   \<and> selectedOperation panel0 = None
   \<and> clickExecute 1000 panel0 init = init
   \<and> 2 \<le> length (rasterFiles uploads2)
   \<and> selectedOperation (clickOperation uploads2 (operations ! 3) panel0) = Some Mosaic
   \<and> activeJobs (clickExecute 1000
         \<lparr>selectedOperation = Some Mosaic, selectedFiles = [''1'', ''2'']\<rparr> init) = [0]"
  using mosaic_selection_guard [of "[hd uploads2]" panel0 1000 "[]" init Mosaic]
    mosaic_selection_guard [of uploads2
      "\<lparr>selectedOperation = Some Mosaic, selectedFiles = [''1'', ''2'']\<rparr>" 1000 "[]" init Mosaic]
    mosaic_selection_guard [of uploads2 panel0 1000 "[]" init Mosaic]
  by (simp add: uploads2_def rasterFiles_def panel0_def init_def)

text \<open>
  Claim C7: deleting a job whose status is \<open>processing\<close> must leave the job list unchanged.
  The code tries to ensure this by rendering no delete button for a processing job, but it
  does not: \<open>handleDelete\<close> itself checks no status, and the button of a job rendered while
  the job was \<open>pending\<close> is still on the screen after the timer has made the job
  \<open>processing\<close>. One job is submitted at time 1000 and the tracker renders it with a delete
  button; the first timer fires; a click on that button removes the processing job from
  the list. A rendering in the later state would have shown no button.
\<close>

theorem stale_delete_button_removes_processing_job:
  "deleteButtons (run [Execute 1000 (Some Resample) [''1'']] init) = [0]
   \<and> status (heap (run [Execute 1000 (Some Resample) [''1''], TimerFires] init) ! 0) = Processing
   \<and> job_id (heap (run [Execute 1000 (Some Resample) [''1''], TimerFires] init) ! 0) = ''1000''
   \<and> activeJobs (run [Execute 1000 (Some Resample) [''1''], TimerFires] init) = [0]
   \<and> deleteButtons (run [Execute 1000 (Some Resample) [''1''], TimerFires] init) = []
   \<and> activeJobs (clickDelete (deleteButtons (run [Execute 1000 (Some Resample) [''1'']] init)) 0
         (run [Execute 1000 (Some Resample) [''1''], TimerFires] init)) = []
   \<and> activeJobs (handleDelete ''1000''
         (run [Execute 1000 (Some Resample) [''1''], TimerFires] init)) = []"
  by (simp add: eval_defs deleteButtons_def deleteButtonRendered_def clickDelete_def)

section \<open>Order of the job list, and the number of jobs in processing\<close>

lemma created_at_runCallback: "created_at (runCallback cb job) = created_at job"
  by (cases cb) simp_all

lemma created_at_fireTimer: "map created_at (heap (fireTimer s)) = map created_at (heap s)"
proof (cases "nextTimer (timers s)")
  case None
  then show ?thesis by (simp add: fireTimer_def)
next
  case (Some t)
  obtain due j cb where t: "t = (due, j, cb)" by (cases t)
  have "map created_at ((heap s)[j := runCallback cb (heap s ! j)]) = map created_at (heap s)"
    by (rule nth_equalityI) (simp_all add: nth_update_heap created_at_runCallback)
  with Some t show ?thesis by (simp add: fireTimer_def)
qed

lemma created_at_step:
  "map created_at (heap (step e s)) = map created_at (heap s) @ submitTimes [e]"
proof (cases e)
  case (Execute now selectedOp selFiles)
  then show ?thesis
    by (cases selectedOp)
       (simp_all add: handleExecute_def handleJobCreate_def Let_def newJob_def)
next
  case (Delete jobId)
  then show ?thesis by (simp add: handleDelete_def)
next
  case TimerFires
  then show ?thesis by (simp add: created_at_fireTimer)
qed

lemma submitTimes_Cons: "submitTimes (e # es) = submitTimes [e] @ submitTimes es"
proof (cases e)
  case (Execute now selectedOp selFiles)
  then show ?thesis by (cases selectedOp) simp_all
qed simp_all

lemma created_at_run:
  "map created_at (heap (run es s)) = map created_at (heap s) @ submitTimes es"
proof (induction es arbitrary: s)
  case Nil
  show ?case by simp
next
  case (Cons e es)
  show ?case
    using Cons.IH [of "step e s"] created_at_step [of e s] submitTimes_Cons [of e es] by simp
qed

lemma activeJobs_increasing_step:
  assumes "job_inv s" "sorted_wrt (<) (activeJobs s)"
  shows "sorted_wrt (<) (activeJobs (step e s))"
proof (cases e)
  case (Execute now selectedOp selFiles)
  from assms(1) have "\<forall>j \<in> set (activeJobs s). j < length (heap s)" by (simp add: job_inv_def)
  with Execute assms(2) show ?thesis
    by (cases selectedOp)
       (simp_all add: handleExecute_def handleJobCreate_def Let_def sorted_wrt_append)
next
  case (Delete jobId)
  with assms(2) show ?thesis by (simp add: handleDelete_def sorted_wrt_filter)
next
  case TimerFires
  with assms(2) show ?thesis by (simp add: fireTimer_def split: option.splits)
qed

lemma activeJobs_increasing_run:
  assumes "job_inv s" "sorted_wrt (<) (activeJobs s)"
  shows "sorted_wrt (<) (activeJobs (run es s))"
  using assms
  by (induction es arbitrary: s) (simp_all add: inv_step activeJobs_increasing_step)

lemma activeJobs_bound: "job_inv s \<Longrightarrow> j \<in> set (activeJobs s) \<Longrightarrow> j < length (heap s)"
  by (simp add: job_inv_def)

text \<open>
  Claim C8 fails as stated. After two submissions the list shows the older job first.
\<close>

theorem newest_first_counterexample:
  "map created_at (jobs (run [Execute 1000 (Some Resample) [''1''],
                              Execute 2500 (Some Clip) [''1'', ''3'']] init)) = [1000, 2500]
   \<and> \<not> sorted_wrt (\<ge>) (map created_at (jobs (run [Execute 1000 (Some Resample) [''1''],
                              Execute 2500 (Some Clip) [''1'', ''3'']] init)))"
  by (simp add: eval_defs jobs_def)

text \<open>
  Claim C8, amended. The job list is in submission order, oldest first: a submission
  appends the new job at the end of the list that the tracker renders, and when the clock
  values of the submissions do not decrease, the rendered list is ordered by \<open>created_at\<close>
  ascending (deletions and timers keep the order).
\<close>

theorem jobs_listed_in_submission_order:
  "jobs (handleExecute now (Some opn) selFiles (run es init))
     = jobs (run es init) @ [newJob now opn selFiles]
   \<and> (sorted (submitTimes es) \<longrightarrow> sorted (map created_at (jobs (run es init))))"
proof
  let ?s = "run es init"
  have inv: "job_inv ?s" by (rule inv_reachable)
  have "map (\<lambda>j. (heap ?s @ [newJob now opn selFiles]) ! j) (activeJobs ?s)
          = map (\<lambda>j. heap ?s ! j) (activeJobs ?s)"
    using activeJobs_bound [OF inv] by (simp add: nth_append)
  then show "jobs (handleExecute now (Some opn) selFiles ?s)
      = jobs ?s @ [newJob now opn selFiles]"
    by (simp add: jobs_def handleExecute_def handleJobCreate_def Let_def)
  show "sorted (submitTimes es) \<longrightarrow> sorted (map created_at (jobs ?s))"
  proof
    assume srt: "sorted (submitTimes es)"
    have c: "map created_at (heap ?s) = submitTimes es"
      using created_at_run [of es init] by (simp add: init_def)
    then have len: "length (submitTimes es) = length (heap ?s)"
      by (metis length_map)
    have inc: "sorted_wrt (<) (activeJobs ?s)"
      by (rule activeJobs_increasing_run) (simp_all add: inv_init, simp add: init_def)
    have "sorted_wrt (\<lambda>i j. submitTimes es ! i \<le> submitTimes es ! j) (activeJobs ?s)"
    proof (rule sorted_wrt_mono_rel [OF _ inc])
      fix i j assume "i \<in> set (activeJobs ?s)" "j \<in> set (activeJobs ?s)" "i < j"
      with activeJobs_bound [OF inv] len srt
      show "submitTimes es ! i \<le> submitTimes es ! j"
        by (simp add: sorted_nth_mono)
    qed
    then have "sorted (map (\<lambda>j. submitTimes es ! j) (activeJobs ?s))"
      by (simp add: sorted_wrt_map)
    moreover have "map created_at (jobs ?s) = map (\<lambda>j. submitTimes es ! j) (activeJobs ?s)"
      using activeJobs_bound [OF inv] c [symmetric] by (simp add: jobs_def)
    ultimately show "sorted (map created_at (jobs ?s))" by simp
  qed
qed

theorem jobs_listed_in_submission_order_witness:
  "sorted (submitTimes [Execute 1000 (Some Resample) [''1''], TimerFires,
                        Execute 2500 (Some Clip) [''1'', ''3'']])
   \<and> map created_at (jobs (run [Execute 1000 (Some Resample) [''1''], TimerFires,
                        Execute 2500 (Some Clip) [''1'', ''3'']] init)) = [1000, 2500]
   \<and> sorted [1000, 2500 :: nat]"
  using jobs_listed_in_submission_order [of 2500 Clip "[''1'', ''3'']"
     "[Execute 1000 (Some Resample) [''1''], TimerFires, Execute 2500 (Some Clip) [''1'', ''3'']]"]
  by (simp add: eval_defs jobs_def)

lemma length_activeJobs_step:
  "length (activeJobs (step e s)) \<le> length (activeJobs s) + length (submitTimes [e])"
proof (cases e)
  case (Execute now selectedOp selFiles)
  then show ?thesis
    by (cases selectedOp) (simp_all add: handleExecute_def handleJobCreate_def Let_def)
next
  case (Delete jobId)
  then show ?thesis by (simp add: handleDelete_def)
next
  case TimerFires
  then show ?thesis by (simp add: fireTimer_def split: option.splits)
qed

lemma length_activeJobs_run:
  "length (activeJobs (run es s)) \<le> length (activeJobs s) + length (submitTimes es)"
proof (induction es arbitrary: s)
  case Nil
  show ?case by simp
next
  case (Cons e es)
  have "length (activeJobs (run es (step e s)))
          \<le> length (activeJobs (step e s)) + length (submitTimes es)" by (rule Cons.IH)
  also have "\<dots> \<le> length (activeJobs s) + length (submitTimes [e]) + length (submitTimes es)"
    using length_activeJobs_step [of e s] by simp
  also have "\<dots> = length (activeJobs s) + length (submitTimes (e # es))"
    using submitTimes_Cons [of e es] by simp
  finally show ?case by simp
qed

text \<open>A burst of submissions: all of its jobs are in processing together.\<close>

lemma run_append: "run (es @ es') s = run es' (run es s)"
  by (induction es arbitrary: s) simp_all

lemma burst_inv_init: "burst_inv t0 init" "spCount init = 0" "length (heap init) = 0"
  by (simp_all add: burst_inv_def inv_init spCount_def) (simp_all add: init_def)

lemma burst_submit:
  assumes "burst_inv t0 s" "t0 \<le> t" "t < t0 + 4000"
  shows "burst_inv t0 (handleExecute t (Some opn) selFiles s)"
    "spCount (handleExecute t (Some opn) selFiles s) = Suc (spCount s)"
    "length (heap (handleExecute t (Some opn) selFiles s)) = Suc (length (heap s))"
proof -
  let ?s' = "handleExecute t (Some opn) selFiles s"
  have h: "heap ?s' = heap s @ [newJob t opn selFiles]"
    and tm: "timers ?s' = timers s @ [(t + 1000, length (heap s), SetProcessing),
                                       (t + 5000, length (heap s), SetCompleted)]"
    and aj: "activeJobs ?s' = activeJobs s @ [length (heap s)]"
    by (simp_all add: handleExecute_def handleJobCreate_def Let_def)
  have "job_inv ?s'" using assms(1) by (simp add: burst_inv_def inv_handleExecute)
  moreover have "\<forall>u \<in> set (timers ?s').
            (snd (snd u) = SetProcessing \<longrightarrow> fst u < t0 + 5000)
          \<and> (snd (snd u) = SetCompleted \<longrightarrow> t0 + 5000 \<le> fst u)"
    using assms by (auto simp: burst_inv_def tm)
  moreover have "\<forall>j < length (heap ?s'). status (heap ?s' ! j) \<noteq> Completed"
    using assms(1) by (auto simp: burst_inv_def h nth_append newJob_def)
  moreover have "activeJobs ?s' = [0..<length (heap ?s')]"
    using assms(1) by (simp add: burst_inv_def aj h)
  ultimately show "burst_inv t0 ?s'" by (simp add: burst_inv_def)
  show "spCount ?s' = Suc (spCount s)" by (simp add: spCount_def tm)
  show "length (heap ?s') = Suc (length (heap s))" by (simp add: h)
qed

lemma burst_submit_all:
  assumes "burst_inv t0 s" "\<forall>t \<in> set ts. t0 \<le> t \<and> t < t0 + 4000"
  shows "burst_inv t0 (run (map (\<lambda>t. Execute t (Some opn) selFiles) ts) s)
       \<and> spCount (run (map (\<lambda>t. Execute t (Some opn) selFiles) ts) s) = spCount s + length ts
       \<and> length (heap (run (map (\<lambda>t. Execute t (Some opn) selFiles) ts) s))
           = length (heap s) + length ts"
  using assms
proof (induction ts arbitrary: s)
  case Nil
  then show ?case by simp
next
  case (Cons t ts)
  from Cons.prems have w: "t0 \<le> t" "t < t0 + 4000" by simp_all
  note sub = burst_submit [OF Cons.prems(1) w, of opn selFiles]
  from Cons.IH [OF sub(1)] Cons.prems(2) sub(2,3) show ?case by simp
qed

lemma burst_fire:
  assumes "burst_inv t0 s" "0 < spCount s"
  shows "burst_inv t0 (fireTimer s)"
    "spCount (fireTimer s) = spCount s - 1"
    "length (heap (fireTimer s)) = length (heap s)"
proof -
  from assms(1) have inv: "job_inv s" by (simp add: burst_inv_def)
  from assms(2) obtain u where u: "u \<in> set (timers s)" "snd (snd u) = SetProcessing"
    by (auto simp: spCount_def filter_empty_conv)
  with assms(1) have ud: "fst u < t0 + 5000" by (simp add: burst_inv_def)
  from u(1) obtain t where nt: "nextTimer (timers s) = Some t"
    by (cases "nextTimer (timers s)") (auto simp: nextTimer_None)
  obtain due j cb where t: "t = (due, j, cb)" by (cases t)
  from nextTimer_Some [OF nt] u(1) t have mem: "t \<in> set (timers s)" and "due \<le> fst u" by auto
  with ud have "due < t0 + 5000" by simp
  with assms(1) mem t have cb: "cb = SetProcessing"
    by (cases cb) (auto simp: burst_inv_def)
  from fireTimer_cases [OF inv nt [unfolded t]] cb
  have j: "j < length (heap s)" and pend: "status (heap s ! j) = Pending" by auto
  let ?s' = "fireTimer s"
  have s': "?s' = s\<lparr>timers := remove1 t (timers s),
                     heap := (heap s)[j := runCallback cb (heap s ! j)]\<rparr>"
    using nt t by (simp add: fireTimer_def)
  have "job_inv ?s'" using inv by (rule inv_fireTimer)
  moreover have "\<forall>u \<in> set (timers ?s').
            (snd (snd u) = SetProcessing \<longrightarrow> fst u < t0 + 5000)
          \<and> (snd (snd u) = SetCompleted \<longrightarrow> t0 + 5000 \<le> fst u)"
    using assms(1) set_remove1_subset [of t "timers s"] by (auto simp: burst_inv_def s')
  moreover have "\<forall>i < length (heap ?s'). status (heap ?s' ! i) \<noteq> Completed"
    using assms(1) cb by (auto simp: burst_inv_def s' nth_update_heap)
  moreover have "activeJobs ?s' = [0..<length (heap ?s')]"
    using assms(1) by (simp add: burst_inv_def s')
  ultimately show "burst_inv t0 ?s'" by (simp add: burst_inv_def)
  have "t \<in> set (filter (\<lambda>t. snd (snd t) = SetProcessing) (timers s))"
    using mem t cb by simp
  then show "spCount ?s' = spCount s - 1"
    by (simp add: spCount_def s' filter_remove1 length_remove1)
  show "length (heap ?s') = length (heap s)" by (simp add: s')
qed

lemma burst_fire_all:
  assumes "burst_inv t0 s" "n \<le> spCount s"
  shows "burst_inv t0 (run (replicate n TimerFires) s)
       \<and> spCount (run (replicate n TimerFires) s) = spCount s - n
       \<and> length (heap (run (replicate n TimerFires) s)) = length (heap s)"
  using assms
proof (induction n arbitrary: s)
  case 0
  then show ?case by simp
next
  case (Suc n)
  from Suc.prems(2) have pos: "0 < spCount s" by simp
  note f = burst_fire [OF Suc.prems(1) pos]
  from Suc.prems(2) f(2) have "n \<le> spCount (fireTimer s)" by simp
  from Suc.IH [OF f(1) this] f(2,3) show ?case by simp
qed

lemma burst_all_processing:
  assumes "burst_inv t0 s" "spCount s = 0"
  shows "length (processingJobs s) = length (heap s)"
proof -
  from assms(1) have inv: "job_inv s" by (simp add: burst_inv_def)
  have "status (heap s ! j) = Processing" if j: "j < length (heap s)" for j
  proof (cases "status (heap s ! j)")
    case Pending
    from inv j have "phaseOK s j" by (simp add: job_inv_def)
    with Pending obtain a where "a \<in> set (timersOf j s)" "snd (snd a) = SetProcessing"
      by (auto simp: phaseOK_def Let_def map_eq_Cons_conv)
    then have "filter (\<lambda>t. snd (snd t) = SetProcessing) (timers s) \<noteq> []"
      by (auto simp: timersOf_def filter_empty_conv)
    with assms(2) show ?thesis by (simp add: spCount_def)
  next
    case Completed
    with assms(1) j show ?thesis by (simp add: burst_inv_def)
  next
    case Failed
    with phase_facts(2) [OF inv j] show ?thesis by simp
  qed simp
  then have "filter (\<lambda>job. status job = Processing) (map (\<lambda>j. heap s ! j) [0..<length (heap s)])
               = map (\<lambda>j. heap s ! j) [0..<length (heap s)]"
    by (simp add: filter_id_conv)
  with assms(1) show ?thesis by (simp add: processingJobs_def jobs_def burst_inv_def)
qed

lemma burst_reaches_any_number:
  assumes "\<forall>t \<in> set ts. t0 \<le> t \<and> t < t0 + 4000"
  shows "length (processingJobs
           (run (map (\<lambda>t. Execute t (Some opn) selFiles) ts @ replicate (length ts) TimerFires)
              init)) = length ts"
proof -
  let ?s1 = "run (map (\<lambda>t. Execute t (Some opn) selFiles) ts) init"
  from burst_submit_all [OF burst_inv_init(1) assms, of opn selFiles]
  have b1: "burst_inv t0 ?s1" and c1: "spCount ?s1 = length ts"
    and l1: "length (heap ?s1) = length ts"
    by (simp_all add: burst_inv_init)
  from burst_fire_all [OF b1, of "length ts"] c1 l1
  have "burst_inv t0 (run (replicate (length ts) TimerFires) ?s1)"
    "spCount (run (replicate (length ts) TimerFires) ?s1) = 0"
    "length (heap (run (replicate (length ts) TimerFires) ?s1)) = length ts"
    by simp_all
  with burst_all_processing [of t0 "run (replicate (length ts) TimerFires) ?s1"]
  show ?thesis by (simp add: run_append)
qed

text \<open>
  Claim C4 fails as stated for the ceiling 5. Six submissions within half a second, then
  the first timer of each: six jobs are \<open>processing\<close> at once.
\<close>

theorem ceiling_counterexample:
  "map status (processingJobs (run burst6 init))
     = [Processing, Processing, Processing, Processing, Processing, Processing]
   \<and> \<not> length (processingJobs (run burst6 init)) \<le> 5"
  by (simp add: burst6_def eval_defs jobs_def processingJobs_def)

text \<open>
  Claim C4, amended. The code enforces no ceiling. In every reachable state the number of
  listed jobs in status \<open>processing\<close> is at most the number of jobs submitted so far, and
  no smaller bound holds: any number of jobs submitted inside a window of less than four
  seconds are all \<open>processing\<close> together once the first timer of each has fired.
\<close>

theorem processing_bounded_by_submissions:
  "length (processingJobs (run es init)) \<le> length (submitTimes es)
   \<and> ((\<forall>t \<in> set ts. t0 \<le> t \<and> t < t0 + 4000) \<longrightarrow>
        length (processingJobs
          (run (map (\<lambda>t. Execute t (Some opn) selFiles) ts @ replicate (length ts) TimerFires)
             init)) = length ts)"
proof (intro conjI impI)
  have "length (processingJobs (run es init)) \<le> length (activeJobs (run es init))"
    using length_filter_le [of "\<lambda>job. status job = Processing" "jobs (run es init)"]
    by (simp add: processingJobs_def jobs_def)
  also have "\<dots> \<le> length (submitTimes es)"
    using length_activeJobs_run [of es init] by (simp add: init_def)
  finally show "length (processingJobs (run es init)) \<le> length (submitTimes es)" .
next
  assume "\<forall>t \<in> set ts. t0 \<le> t \<and> t < t0 + 4000"
  then show "length (processingJobs
      (run (map (\<lambda>t. Execute t (Some opn) selFiles) ts @ replicate (length ts) TimerFires)
         init)) = length ts"
    by (rule burst_reaches_any_number)
qed

theorem processing_bounded_by_submissions_witness:
  "(1000 :: nat) \<le> 1000 \<and> (1500 :: nat) < 1000 + 4000
   \<and> length (processingJobs
        (run (map (\<lambda>t. Execute t (Some Resample) [''1'']) [1000, 1100, 1200, 1300, 1400, 1500]
               @ replicate (length [1000, 1100, 1200, 1300, 1400, 1500 :: nat]) TimerFires)
           init)) = 6
   \<and> length (submitTimes burst6) = 6
   \<and> length (processingJobs (run burst6 init)) \<le> 6"
  using processing_bounded_by_submissions [of burst6 "[1000, 1100, 1200, 1300, 1400, 1500]"
      1000 Resample "[''1'']"]
  by (simp add: burst6_def)

section \<open>Status values and the delete request\<close>

lemma job_status_UNIV: "(UNIV :: job_status set) = {Pending, Processing, Completed, Failed}"
  by (auto intro: job_status.exhaust)

text \<open>
  Claim C2 fails as stated. The status type has four values, not five; and the only
  request that takes a job away, \<open>handleDelete\<close>, applied to a pending job, leaves its status
  \<open>pending\<close> (not terminal) and its timers running, so that it is \<open>completed\<close> later.
\<close>

theorem cancellation_counterexample:
  "status (heap (run [Execute 1000 (Some Resample) [''1''], Delete ''1000''] init) ! 0) = Pending
   \<and> \<not> terminal Pending
   \<and> activeJobs (run [Execute 1000 (Some Resample) [''1''], Delete ''1000''] init) = []
   \<and> status (heap (run [Execute 1000 (Some Resample) [''1''], Delete ''1000'',
                         TimerFires, TimerFires] init) ! 0) = Completed
   \<and> card (UNIV :: job_status set) = 4"
  by (simp add: eval_defs job_status_UNIV)

text \<open>
  Claim C2, amended. The status of a job is one of the four values \<open>pending\<close>,
  \<open>processing\<close>, \<open>completed\<close>, \<open>failed\<close>, and in every reachable state one of the first
  three. There is no \<open>cancelled\<close> status and no cancellation request: a delete request
  takes the jobs with the given id off the list and changes no job object (so no status)
  and no timer.
\<close>

theorem status_values_without_cancellation:
  "(UNIV :: job_status set) = {Pending, Processing, Completed, Failed}
   \<and> (j < length (heap (run es init)) \<longrightarrow>
        status (heap (run es init) ! j) \<in> {Pending, Processing, Completed})
   \<and> heap (step (Delete jobId) s) = heap s
   \<and> timers (step (Delete jobId) s) = timers s
   \<and> jobs (step (Delete jobId) s) = filter (\<lambda>job. job_id job \<noteq> jobId) (jobs s)"
proof (intro conjI impI)
  assume "j < length (heap (run es init))"
  from phase_facts(2) [OF inv_reachable this]
  show "status (heap (run es init) ! j) \<in> {Pending, Processing, Completed}"
    by (cases "status (heap (run es init) ! j)") simp_all
next
  show "jobs (step (Delete jobId) s) = filter (\<lambda>job. job_id job \<noteq> jobId) (jobs s)"
    by (simp add: jobs_def handleDelete_def filter_map comp_def)
qed (simp_all add: job_status_UNIV handleDelete_def)

theorem status_values_without_cancellation_witness:
  "0 < length (heap (run [Execute 1000 (Some Resample) [''1''], Delete ''1000''] init))
   \<and> status (heap (run [Execute 1000 (Some Resample) [''1''], Delete ''1000''] init) ! 0)
       \<in> {Pending, Processing, Completed}
   \<and> jobs (step (Delete ''1000'') (run [Execute 1000 (Some Resample) [''1'']] init)) = []"
  using status_values_without_cancellation [of 0
      "[Execute 1000 (Some Resample) [''1''], Delete ''1000'']" "''1000''"
      "run [Execute 1000 (Some Resample) [''1'']] init"]
  by (simp add: eval_defs jobs_def)

end
